theory Spec2Isabelle
  imports Main
begin

section \<open>Strings and the Python built-ins used by \<open>csv_to_arff\<close>\<close>

text \<open>
  The program is the single function \<open>csv_to_arff(fileToRead, fileToWrite, relation)\<close> of
  \<open>csv-to-arff.py\<close>. Python strings are modelled as HOL strings (lists of characters); the
  model of \<open>str.lower\<close> and \<open>float\<close> below is the ASCII fragment of the Python
  built-ins: a character outside ASCII is left alone by \<open>lower\<close> and is neither a digit
  nor white space for \<open>float\<close>.
\<close>

definition nl :: char where "nl = CHR 0x0A"
definition cr :: char where "cr = CHR 0x0D"
definition sq :: char where "sq = CHR 0x27"
definition dq :: char where "dq = CHR 0x22"
definition bsl :: char where "bsl = CHR 0x5C"

text \<open>\<open>os.linesep\<close>: the line separator of the platform the program runs on.\<close>

datatype platform = Posix | Windows

fun linesep :: "platform \<Rightarrow> string" where
  "linesep Posix = [nl]"
| "linesep Windows = [cr, nl]"

text \<open>\<open>s.lower()\<close> on ASCII text.\<close>

definition lower_char :: "char \<Rightarrow> char" where
  "lower_char c =
     (case map_of (zip ''ABCDEFGHIJKLMNOPQRSTUVWXYZ'' ''abcdefghijklmnopqrstuvwxyz'') c of
        Some d \<Rightarrow> d
      | None \<Rightarrow> c)"

definition lower :: "string \<Rightarrow> string" where
  "lower s = map lower_char s"

text \<open>\<open>s.strip(chars)\<close>: drops, at both ends, the characters that occur in \<open>chars\<close>.\<close>

definition strip :: "string \<Rightarrow> string \<Rightarrow> string" where
  "strip chars s =
     rev (dropWhile (\<lambda>c. c \<in> set chars) (rev (dropWhile (\<lambda>c. c \<in> set chars) s)))"

text \<open>\<open>s.replace(old, new)\<close> for a one-character \<open>old\<close>, the only use the program makes of it.\<close>

definition replace :: "char \<Rightarrow> string \<Rightarrow> string \<Rightarrow> string" where
  "replace old new s = concat (map (\<lambda>c. if c = old then new else [c]) s)"

text \<open>\<open>sep.join(xs)\<close>.\<close>

fun join :: "string \<Rightarrow> string list \<Rightarrow> string" where
  "join sep [] = []"
| "join sep [x] = x"
| "join sep (x # y # ys) = x @ sep @ join sep (y # ys)"

text \<open>\<open>str(n)\<close> for a non-negative integer.\<close>

definition digit_char :: "nat \<Rightarrow> char" where
  "digit_char d = ''0123456789'' ! d"

fun str_nat :: "nat \<Rightarrow> string" where
  "str_nat n = (if n < 10 then [digit_char n] else str_nat (n div 10) @ [digit_char (n mod 10)])"

declare str_nat.simps [simp del]

subsection \<open>\<open>float(s)\<close>: does the string parse?\<close>

text \<open>
  \<open>float\<close> raises \<open>ValueError\<close> exactly when its argument is not, after white space is
  removed at both ends, an optionally signed \<open>inf\<close>, \<open>infinity\<close>, \<open>nan\<close> (in any case) or a
  decimal number
  \<^verbatim>\<open>
  digitpart   ::= digit (["_"] digit)*
  number      ::= [digitpart] "." digitpart | digitpart ["."]
  exponent    ::= ("e" | "E") ["+" | "-"] digitpart
  floatnumber ::= number [exponent]
  \<close>
  The program uses only whether the call succeeds, so \<open>float_ok\<close> is that predicate.
\<close>

definition is_digit :: "char \<Rightarrow> bool" where
  "is_digit c \<longleftrightarrow> c \<in> set ''0123456789''"

definition white_space :: string where
  "white_space = [CHR '' '', CHR 0x09, CHR 0x0A, CHR 0x0B, CHR 0x0C, CHR 0x0D]"

fun digitpart_tail :: "string \<Rightarrow> string" where
  "digitpart_tail [] = []"
| "digitpart_tail (c # cs) =
     (if is_digit c then digitpart_tail cs
      else if c = CHR ''_'' then
        (case cs of
           [] \<Rightarrow> c # cs
         | d # ds \<Rightarrow> if is_digit d then digitpart_tail ds else c # cs)
      else c # cs)"

definition digitpart :: "string \<Rightarrow> string option" where
  "digitpart s =
     (case s of
        [] \<Rightarrow> None
      | c # cs \<Rightarrow> if is_digit c then Some (digitpart_tail cs) else None)"

definition number :: "string \<Rightarrow> string option" where
  "number s =
     (case digitpart s of
        Some r \<Rightarrow>
          (case r of
             [] \<Rightarrow> Some []
           | c # cs \<Rightarrow>
               if c = CHR ''.'' then (case digitpart cs of Some r' \<Rightarrow> Some r' | None \<Rightarrow> Some cs)
               else Some r)
      | None \<Rightarrow>
          (case s of
             [] \<Rightarrow> None
           | c # cs \<Rightarrow> if c = CHR ''.'' then digitpart cs else None))"

definition drop_sign :: "string \<Rightarrow> string" where
  "drop_sign s =
     (case s of
        [] \<Rightarrow> []
      | c # cs \<Rightarrow> if c = CHR ''+'' \<or> c = CHR ''-'' then cs else s)"

definition floatnumber :: "string \<Rightarrow> bool" where
  "floatnumber s =
     (case number s of
        None \<Rightarrow> False
      | Some r \<Rightarrow>
          (case r of
             [] \<Rightarrow> True
           | c # cs \<Rightarrow> (c = CHR ''e'' \<or> c = CHR ''E'') \<and> digitpart (drop_sign cs) = Some []))"

definition float_ok :: "string \<Rightarrow> bool" where
  "float_ok s =
     (let t = drop_sign (strip white_space s)
      in lower t \<in> set [''inf'', ''infinity'', ''nan''] \<or> floatnumber t)"

section \<open>The conversion\<close>

subsection \<open>Exceptions, indexing and loops\<close>

text \<open>
  The only exception the body of \<open>csv_to_arff\<close> can raise outside its two \<open>try\<close> blocks is
  the \<open>IndexError\<close> of a list access; \<open>ValueError\<close> is raised by \<open>float\<close> only and is
  caught where it is raised. A computation that may raise returns \<open>Inl\<close> of the exception.
\<close>

datatype exn = IndexError

definition bind_res :: "exn + 'a \<Rightarrow> ('a \<Rightarrow> exn + 'b) \<Rightarrow> exn + 'b" where
  "bind_res m f = (case m of Inl e \<Rightarrow> Inl e | Inr x \<Rightarrow> f x)"

text \<open>\<open>xs[i]\<close> and \<open>xs[i] = v\<close> for an index that is not negative.\<close>

definition getitem :: "'a list \<Rightarrow> nat \<Rightarrow> exn + 'a" where
  "getitem xs i = (if i < length xs then Inr (xs ! i) else Inl IndexError)"

definition setitem :: "'a list \<Rightarrow> nat \<Rightarrow> 'a \<Rightarrow> exn + 'a list" where
  "setitem xs i v = (if i < length xs then Inr (xs[i := v]) else Inl IndexError)"

text \<open>\<open>allData[i][j]\<close> and \<open>allData[i][j] = v\<close>; the assignment changes the row in place.\<close>

definition get_cell :: "string list list \<Rightarrow> nat \<Rightarrow> nat \<Rightarrow> exn + string" where
  "get_cell allData i j = bind_res (getitem allData i) (\<lambda>row. getitem row j)"

definition set_cell :: "string list list \<Rightarrow> nat \<Rightarrow> nat \<Rightarrow> string \<Rightarrow> exn + string list list" where
  "set_cell allData i j v =
     bind_res (getitem allData i) (\<lambda>row.
     bind_res (setitem row j v) (\<lambda>row'. Inr (allData[i := row'])))"

text \<open>
  \<open>for i in range(a, b): body\<close> is \<open>for_loop [a..<b] body\<close>: the body is run on the state
  for each index in turn, and the first exception ends the loop.
\<close>

fun for_loop :: "nat list \<Rightarrow> (nat \<Rightarrow> 's \<Rightarrow> exn + 's) \<Rightarrow> 's \<Rightarrow> exn + 's" where
  "for_loop [] body s = Inr s"
| "for_loop (i # is) body s = bind_res (body i s) (for_loop is body)"

subsection \<open>The passes over the table (lines 67 to 120)\<close>

text \<open>Lines 72 to 75: \<open>'0'\<close> for an empty cell, header row included.\<close>

definition empty_cell_step :: "nat \<Rightarrow> nat \<Rightarrow> string list list \<Rightarrow> exn + string list list" where
  "empty_cell_step j i allData =
     bind_res (get_cell allData i j) (\<lambda>v.
     if v = [] then set_cell allData i j ''0'' else Inr allData)"

definition empty_cell_pass :: "nat \<Rightarrow> nat \<Rightarrow> string list list \<Rightarrow> exn + string list list" where
  "empty_cell_pass totalCols totalRows allData =
     for_loop [0..<totalCols] (\<lambda>j. for_loop [0..<totalRows] (empty_cell_step j)) allData"

text \<open>Lines 78 to 86: lower case, strip, escape the quotes, quote what is not a number.\<close>

definition normalize_step ::
  "platform \<Rightarrow> nat \<Rightarrow> nat \<Rightarrow> string list list \<Rightarrow> exn + string list list" where
  "normalize_step pf j i allData =
     bind_res (get_cell allData i j) (\<lambda>v.
     bind_res (set_cell allData i j (lower v)) (\<lambda>allData.
     bind_res (get_cell allData i j) (\<lambda>v.
     bind_res (set_cell allData i j
        (replace dq [bsl, dq] (replace sq [bsl, sq]
           (strip [cr] (strip [nl] (strip (linesep pf) v)))))) (\<lambda>allData.
     bind_res (get_cell allData i j) (\<lambda>v.
     if float_ok v then Inr allData
     else bind_res (get_cell allData i j) (\<lambda>v. set_cell allData i j ([dq] @ v @ [dq])))))))"

definition normalize_pass ::
  "platform \<Rightarrow> nat \<Rightarrow> nat \<Rightarrow> string list list \<Rightarrow> exn + string list list" where
  "normalize_pass pf totalCols totalRows allData =
     for_loop [0..<totalCols] (\<lambda>j. for_loop [1..<totalRows] (normalize_step pf j)) allData"

text \<open>
  Lines 89 to 94: the distinct values of each column. \<open>list(dict.fromkeys(xs))\<close> inserts the
  elements of \<open>xs\<close> as keys one after the other; a dictionary lists its keys in the order
  in which they were first inserted.
\<close>

fun fromkeys :: "'a list \<Rightarrow> 'a list \<Rightarrow> 'a list" where
  "fromkeys keys [] = keys"
| "fromkeys keys (x # xs) = fromkeys (if x \<in> set keys then keys else keys @ [x]) xs"

definition collect_step :: "string list list \<Rightarrow> nat \<Rightarrow> nat \<Rightarrow> string list \<Rightarrow> exn + string list" where
  "collect_step allData j i columnsTemp =
     bind_res (get_cell allData i j) (\<lambda>v. Inr (columnsTemp @ [v]))"

definition unique_step ::
  "nat \<Rightarrow> string list list \<Rightarrow> nat \<Rightarrow> string list \<times> string list \<Rightarrow> exn + string list \<times> string list" where
  "unique_step totalRows allData j st =
     (case st of (columnsTemp, uniqueOfColumn) \<Rightarrow>
        bind_res (for_loop [1..<totalRows] (collect_step allData j) columnsTemp) (\<lambda>columnsTemp.
        let uniqueTemp = fromkeys [] columnsTemp
        in Inr ([], uniqueOfColumn @ [''{'' @ join '','' uniqueTemp @ ''}''])))"

definition unique_pass :: "nat \<Rightarrow> nat \<Rightarrow> string list list \<Rightarrow> exn + string list \<times> string list" where
  "unique_pass totalCols totalRows allData =
     for_loop [0..<totalCols] (unique_step totalRows allData) ([], [])"

text \<open>Lines 97 to 103: one type per data cell, row after row.\<close>

definition datatype_step :: "string list list \<Rightarrow> nat \<Rightarrow> nat \<Rightarrow> string list \<Rightarrow> exn + string list" where
  "datatype_step allData j i dataType =
     bind_res (get_cell allData j i) (\<lambda>v.
     Inr (dataType @ [if float_ok v then ''numeric'' else ''nominal'']))"

definition datatype_pass :: "nat \<Rightarrow> nat \<Rightarrow> string list list \<Rightarrow> exn + string list" where
  "datatype_pass totalCols totalRows allData =
     for_loop [1..<totalRows] (\<lambda>j. for_loop [0..<totalCols] (datatype_step allData j)) []"

text \<open>
  Lines 105 to 114: the type of a column, from the types of its cells. The state is
  \<open>(p, dataTypeTemp, finalDataType)\<close>. The program has read row 0 before it gets here, so
  \<open>totalRows - 1\<close> is not negative.
\<close>

definition gather_step ::
  "string list \<Rightarrow> nat \<Rightarrow> nat \<Rightarrow> nat \<times> string list \<Rightarrow> exn + nat \<times> string list" where
  "gather_step dataType totalCols i st =
     (case st of (p, dataTypeTemp) \<Rightarrow>
        bind_res (getitem dataType p) (\<lambda>t. Inr (p + totalCols, dataTypeTemp @ [t])))"

definition final_step ::
  "string list \<Rightarrow> nat \<Rightarrow> nat \<Rightarrow> nat \<Rightarrow> nat \<times> string list \<times> string list
     \<Rightarrow> exn + nat \<times> string list \<times> string list" where
  "final_step dataType totalCols totalRows j st =
     (case st of (p, dataTypeTemp, finalDataType) \<Rightarrow>
        bind_res (for_loop [0..<totalRows - 1] (gather_step dataType totalCols) (j, dataTypeTemp))
          (\<lambda>(p, dataTypeTemp).
             Inr (p, [], finalDataType @
                    [if ''nominal'' \<in> set dataTypeTemp then ''nominal'' else ''numeric''])))"

definition final_pass ::
  "nat \<Rightarrow> nat \<Rightarrow> string list \<Rightarrow> exn + nat \<times> string list \<times> string list" where
  "final_pass totalCols totalRows dataType =
     for_loop [0..<totalCols] (final_step dataType totalCols totalRows) (0, [], [])"

text \<open>Lines 116 to 120: the domain text of each attribute.\<close>

definition atttypes_step :: "string list \<Rightarrow> string list \<Rightarrow> nat \<Rightarrow> string list \<Rightarrow> exn + string list" where
  "atttypes_step finalDataType uniqueOfColumn i attTypes =
     bind_res (getitem finalDataType i) (\<lambda>t.
     if t = ''nominal'' then bind_res (getitem uniqueOfColumn i) (\<lambda>u. Inr (attTypes @ [u]))
     else bind_res (getitem finalDataType i) (\<lambda>t. Inr (attTypes @ [t])))"

definition atttypes_pass :: "string list \<Rightarrow> string list \<Rightarrow> exn + string list" where
  "atttypes_pass finalDataType uniqueOfColumn =
     for_loop [0..<length finalDataType] (atttypes_step finalDataType uniqueOfColumn) []"

text \<open>
  Lines 67 to 120 together. The result is what the writer reads: \<open>totalCols\<close>, \<open>totalRows\<close>,
  the table as the passes left it, and \<open>attTypes\<close>.
\<close>

definition analyse ::
  "platform \<Rightarrow> string list list \<Rightarrow> exn + nat \<times> nat \<times> string list list \<times> string list" where
  "analyse pf allData =
     bind_res (getitem allData 0) (\<lambda>attributes.
     let totalCols = length attributes; totalRows = length allData in
     bind_res (empty_cell_pass totalCols totalRows allData) (\<lambda>allData.
     bind_res (normalize_pass pf totalCols totalRows allData) (\<lambda>allData.
     bind_res (unique_pass totalCols totalRows allData) (\<lambda>(columnsTemp, uniqueOfColumn).
     bind_res (datatype_pass totalCols totalRows allData) (\<lambda>dataType.
     bind_res (final_pass totalCols totalRows dataType) (\<lambda>(p, dataTypeTemp, finalDataType).
     bind_res (atttypes_pass finalDataType uniqueOfColumn) (\<lambda>attTypes.
     Inr (totalCols, totalRows, allData, attTypes))))))))"

subsection \<open>Writing the destination (lines 123 to 139)\<close>

text \<open>
  The destination is modelled by the sequence of strings handed to \<open>writeFile.write\<close>; the
  text of the file is their concatenation. An exception inside the \<open>try\<close> block ends the
  writing and is caught there, and what was written before it stays in the file. The
  exceptions modelled are the failure of \<open>open\<close> and the \<open>IndexError\<close> of a list access; a
  \<open>write\<close> that fails half-way (a full disk) is outside the model.

  \<open>attributes\<close> is the list object \<open>allData[0]\<close> itself, not a copy of it: \<open>attributes[i]\<close>
  in line 131 reads the cell \<open>allData[0][i]\<close> as the passes left it.
\<close>

fun write_loop ::
  "nat list \<Rightarrow> (nat \<Rightarrow> exn + string) \<Rightarrow> string list \<Rightarrow> string list \<times> exn option" where
  "write_loop [] line out = (out, None)"
| "write_loop (i # is) line out =
     (case line i of
        Inl e \<Rightarrow> (out, Some e)
      | Inr l \<Rightarrow> write_loop is line (out @ [l]))"

definition comment_block :: "nat \<Rightarrow> nat \<Rightarrow> string \<Rightarrow> string list" where
  "comment_block totalCols totalRows relation =
     [''%'' @ [nl] @ ''% Comments go after a '%' sign.'' @ [nl] @ ''%'' @ [nl],
      ''%'' @ [nl] @ ''% Relation: '' @ relation @ [nl] @ ''%'' @ [nl] @ ''%'' @ [nl],
      ''% Attributes: '' @ str_nat totalCols @ replicate 5 (CHR '' '') @ ''Instances: ''
        @ str_nat (totalRows - 1) @ [nl] @ ''%'' @ [nl] @ ''%'' @ [nl] @ [nl],
      ''@relation '' @ [dq] @ relation @ [dq] @ [nl] @ [nl]]"

definition attribute_line :: "string list list \<Rightarrow> string list \<Rightarrow> nat \<Rightarrow> exn + string" where
  "attribute_line allData attTypes i =
     bind_res (get_cell allData 0 i) (\<lambda>name.
     bind_res (getitem attTypes i) (\<lambda>ty.
     Inr (''@attribute'' @ '' '' @ [sq] @ name @ [sq] @ '' '' @ ty @ [nl])))"

definition data_line :: "string list list \<Rightarrow> nat \<Rightarrow> exn + string" where
  "data_line allData i = bind_res (getitem allData i) (\<lambda>row. Inr (join '','' row @ [nl]))"

definition write_arff ::
  "nat \<Rightarrow> nat \<Rightarrow> string list list \<Rightarrow> string list \<Rightarrow> string \<Rightarrow> string list \<times> exn option" where
  "write_arff totalCols totalRows allData attTypes relation =
     (case write_loop [0..<totalCols] (attribute_line allData attTypes)
             (comment_block totalCols totalRows relation) of
        (out, Some e) \<Rightarrow> (out, Some e)
      | (out, None) \<Rightarrow> write_loop [1..<totalRows] (data_line allData) (out @ [[nl] @ ''@data'' @ [nl]]))"

subsection \<open>The function \<open>csv_to_arff\<close>\<close>

text \<open>
  The two files are the environment of the call. \<open>read_outcome\<close> is what lines 57 to 59 do
  with \<open>fileToRead\<close>: \<open>open\<close> raises \<open>FileNotFoundError\<close>, or opening, decoding or parsing
  raises another exception (with its message), or \<open>list(csv.reader(f))\<close> is a list of
  rows. \<open>open_outcome\<close> is what \<open>open(fileToWrite, 'w')\<close> does: it creates or truncates the
  file, or raises (with its message).

  A call either returns, having printed one line and left the destination untouched
  (\<open>None\<close>) or holding the strings written, or it raises to its caller.
\<close>

datatype read_outcome = FileNotFoundError | ReadException string | ReadOk "string list list"

datatype open_outcome = OpenException string | OpenOk

datatype outcome = Raises exn | Returns (printed: string) (written: "string list option")

fun str_exn :: "exn \<Rightarrow> string" where
  "str_exn IndexError = ''list index out of range''"

definition csv_to_arff ::
  "platform \<Rightarrow> read_outcome \<Rightarrow> open_outcome \<Rightarrow> string \<Rightarrow> string \<Rightarrow> string \<Rightarrow> outcome" where
  "csv_to_arff pf rd wr fileToRead fileToWrite relation =
     (case rd of
        FileNotFoundError \<Rightarrow>
          Returns (''Error: File '' @ [sq] @ fileToRead @ [sq] @ '' not found.'') None
      | ReadException e \<Rightarrow>
          Returns (''Error reading file '' @ [sq] @ fileToRead @ [sq] @ '': '' @ e) None
      | ReadOk allData \<Rightarrow>
          (case analyse pf allData of
             Inl e \<Rightarrow> Raises e
           | Inr (totalCols, totalRows, allData, attTypes) \<Rightarrow>
               (case wr of
                  OpenException e \<Rightarrow>
                    Returns (''Error writing to file '' @ [sq] @ fileToWrite @ [sq] @ '': '' @ e) None
                | OpenOk \<Rightarrow>
                    (case write_arff totalCols totalRows allData attTypes relation of
                       (out, Some e) \<Rightarrow>
                         Returns (''Error writing to file '' @ [sq] @ fileToWrite @ [sq] @ '': ''
                                    @ str_exn e) (Some out)
                     | (out, None) \<Rightarrow>
                         Returns ([sq] @ fileToWrite @ [sq] @ '' was converted from ''
                                    @ [sq] @ fileToRead @ [sq]) (Some out)))))"

section \<open>What the passes compute\<close>

text \<open>
  The functions of this section are not part of the program: they say, without loops and
  without exceptions, what the passes above leave behind, and the lemmas below prove that
  they do.
\<close>

text \<open>The cell after the empty-cell pass (lines 74 and 75).\<close>

definition zero_fill :: "string \<Rightarrow> string" where
  "zero_fill v = (if v = [] then ''0'' else v)"

text \<open>The cell after the body of the normalization loop (lines 80 to 86).\<close>

definition normalize_cell :: "platform \<Rightarrow> string \<Rightarrow> string" where
  "normalize_cell pf v =
     (let w = replace dq [bsl, dq] (replace sq [bsl, sq]
                (strip [cr] (strip [nl] (strip (linesep pf) (lower v)))))
      in if float_ok w then w else [dq] @ w @ [dq])"

text \<open>A raw cell after both passes.\<close>

definition normalized :: "platform \<Rightarrow> string \<Rightarrow> string" where
  "normalized pf v = normalize_cell pf (zero_fill v)"

text \<open>A function applied to the first \<open>n\<close> fields of a row, and to the rows from \<open>a\<close> on.\<close>

definition on_columns :: "nat \<Rightarrow> ('a \<Rightarrow> 'a) \<Rightarrow> 'a list \<Rightarrow> 'a list" where
  "on_columns n f row = map f (take n row) @ drop n row"

definition rows_from :: "nat \<Rightarrow> ('a \<Rightarrow> 'a) \<Rightarrow> 'a list \<Rightarrow> 'a list" where
  "rows_from a g t = take a t @ map g (drop a t)"

text \<open>
  The program reads the cells \<open>allData[i][j]\<close> for \<open>j < totalCols\<close> of every row: it needs
  a header row, and no row shorter than the header.
\<close>

definition wide_enough :: "string list list \<Rightarrow> bool" where
  "wide_enough t \<longleftrightarrow> t \<noteq> [] \<and> (\<forall>r\<in>set t. length (hd t) \<le> length r)"

text \<open>The raw data cells of column \<open>j\<close> (rows 1 to \<open>totalRows - 1\<close>).\<close>

definition column :: "string list list \<Rightarrow> nat \<Rightarrow> string list" where
  "column t j = map (\<lambda>r. r ! j) (tl t)"

text \<open>The table after both passes.\<close>

definition final_table :: "platform \<Rightarrow> string list list \<Rightarrow> string list list" where
  "final_table pf t =
     map zero_fill (hd t) # map (on_columns (length (hd t)) (normalized pf)) (tl t)"

text \<open>The type of a cell (lines 99 to 103) and of a column (lines 110 to 113).\<close>

definition cell_type :: "string \<Rightarrow> string" where
  "cell_type v = (if float_ok v then ''numeric'' else ''nominal'')"

definition column_type :: "string list \<Rightarrow> string" where
  "column_type vs = (if \<forall>v\<in>set vs. float_ok v then ''numeric'' else ''nominal'')"

text \<open>The entry of \<open>uniqueOfColumn\<close> for a column with the values \<open>vs\<close> (lines 92 and 93).\<close>

definition domain_text :: "string list \<Rightarrow> string" where
  "domain_text vs = ''{'' @ join '','' (fromkeys [] vs) @ ''}''"

text \<open>The entry of \<open>attTypes\<close> for column \<open>j\<close> (lines 116 to 120).\<close>

definition att_type :: "platform \<Rightarrow> string list list \<Rightarrow> nat \<Rightarrow> string" where
  "att_type pf t j =
     (let vs = map (normalized pf) (column t j)
      in if \<forall>v\<in>set vs. float_ok v then ''numeric'' else domain_text vs)"

text \<open>The strings written to the destination, in order (lines 125 to 134).\<close>

definition arff_writes :: "platform \<Rightarrow> string list list \<Rightarrow> string \<Rightarrow> string list" where
  "arff_writes pf t relation =
     comment_block (length (hd t)) (length t) relation
     @ map (\<lambda>j. ''@attribute '' @ [sq] @ zero_fill (hd t ! j) @ [sq] @ '' '' @ att_type pf t j @ [nl])
         [0..<length (hd t)]
     @ [[nl] @ ''@data'' @ [nl]]
     @ map (\<lambda>r. join '','' (on_columns (length (hd t)) (normalized pf) r) @ [nl]) (tl t)"

text \<open>
  Text written through a file opened in text mode with the default \<open>newline\<close> has each
  \<open>'\n'\<close> replaced by \<open>os.linesep\<close>: the content of the destination after the strings
  \<open>out\<close> were written to it.
\<close>

definition file_content :: "platform \<Rightarrow> string list \<Rightarrow> string" where
  "file_content pf out = concat (map (\<lambda>c. if c = nl then linesep pf else [c]) (concat out))"

definition destination :: "platform \<Rightarrow> outcome \<Rightarrow> string option" where
  "destination pf r =
     (case r of
        Raises e \<Rightarrow> None
      | Returns msg w \<Rightarrow> (case w of None \<Rightarrow> None | Some out \<Rightarrow> Some (file_content pf out)))"

section \<open>Notions of the specification\<close>

text \<open>
  The elements of a list at the positions where they occur for the first time, in the
  order of these positions.
\<close>

definition first_occurrences :: "'a list \<Rightarrow> 'a list" where
  "first_occurrences xs = map (\<lambda>i. xs ! i) (filter (\<lambda>i. xs ! i \<notin> set (take i xs)) [0..<length xs])"

text \<open>A table in which every row has as many fields as the header row.\<close>

definition rectangular :: "string list list \<Rightarrow> bool" where
  "rectangular t \<longleftrightarrow> t \<noteq> [] \<and> (\<forall>r\<in>set t. length r = length (hd t))"

text \<open>
  The normalized cell in the words of the specification: lower-cased, with the trailing
  line-ending sequences and every trailing or embedded \<open>\n\<close> and \<open>\r\<close> removed (a line-ending
  sequence consists of these two characters, so removing them covers it), each quote
  prefixed with a backslash, and wrapped in double quotes if and only if the result does
  not parse as a floating-point number.
\<close>

definition spec_normalized_cell :: "string \<Rightarrow> string" where
  "spec_normalized_cell v =
     (let a = lower v;
          b = takeWhile (\<lambda>c. c = nl \<or> c = cr) a
                @ filter (\<lambda>c. c \<noteq> nl \<and> c \<noteq> cr) (dropWhile (\<lambda>c. c = nl \<or> c = cr) a);
          w = replace dq [bsl, dq] (replace sq [bsl, sq] b)
      in if float_ok w then w else [dq] @ w @ [dq])"

section \<open>Example tables\<close>

text \<open>The example of the specification: a header and two data rows, one cell empty.\<close>

definition example_table :: "string list list" where
  "example_table =
     [[''name'', ''age'', ''score''], [''Alice'', ''30'', ''9.5''], [''Bob'', '''', ''8'']]"

text \<open>A data row with fewer fields than the header.\<close>

definition short_row_table :: "string list list" where
  "short_row_table = [[''a'', ''b''], [''1'']]"

text \<open>The same, after a complete data row.\<close>

definition ragged_table :: "string list list" where
  "ragged_table = [[''id'', ''name''], [''1'', ''x''], [''2'']]"

text \<open>A quoted CSV field may hold a line break: a cell with a newline inside.\<close>

definition newline_table :: "string list list" where
  "newline_table = [[''h''], [''a'' @ [nl] @ ''b'']]"

text \<open>A nominal column with a repeated value, and a numeric column with an empty cell.\<close>

definition colour_table :: "string list list" where
  "colour_table = [[''Colour'', ''n''], [''Red'', ''1''], [''blue'', ''''], [''red'', ''3'']]"

text \<open>A column whose data cells are all empty.\<close>

definition empty_column_table :: "string list list" where
  "empty_column_table = [[''a'', ''b''], [''x'', ''''], [''y'', '''']]"

text \<open>Header names with a quote, upper case, and the shape of a number.\<close>

definition quoted_header_table :: "string list list" where
  "quoted_header_table = [[''It's'', ''7E2''], [''x'', ''1'']]"

section \<open>Loops\<close>

lemma bind_res_simps [simp]: "bind_res (Inl e) f = Inl e" "bind_res (Inr x) f = f x"
  by (simp_all add: bind_res_def)

lemma bind_res_Inr_iff: "bind_res m f = Inr y \<longleftrightarrow> (\<exists>x. m = Inr x \<and> f x = Inr y)"
  by (cases m) simp_all

lemma for_loop_append:
  "for_loop (xs @ ys) body s = bind_res (for_loop xs body s) (for_loop ys body)"
  by (induction xs arbitrary: s) (simp_all add: bind_res_def split: sum.splits)

lemma for_loop_inv:
  assumes "a \<le> b" and "P a s"
    and step: "\<And>i s. a \<le> i \<Longrightarrow> i < b \<Longrightarrow> P i s \<Longrightarrow> \<exists>s'. body i s = Inr s' \<and> P (Suc i) s'"
  shows "\<exists>s'. for_loop [a..<b] body s = Inr s' \<and> P b s'"
  using assms(1)
proof (induction rule: dec_induct)
  case base
  show ?case using assms(2) by simp
next
  case (step n)
  then obtain s1 where s1: "for_loop [a..<n] body s = Inr s1" "P n s1" by blast
  from assms(3)[OF step.hyps(1,2) s1(2)] obtain s2 where "body n s1 = Inr s2" "P (Suc n) s2"
    by blast
  with s1 step.hyps(1) show ?case by (simp add: for_loop_append)
qed

lemma for_loop_Inr_steps:
  assumes "for_loop xs body s = Inr s'" and "Q s"
    and "\<And>i s s'. i \<in> set xs \<Longrightarrow> Q s \<Longrightarrow> body i s = Inr s' \<Longrightarrow> Q s' \<and> R i"
  shows "Q s' \<and> (\<forall>i\<in>set xs. R i)"
  using assms
proof (induction xs arbitrary: s)
  case Nil
  then show ?case by simp
next
  case (Cons x xs)
  from Cons.prems(1) obtain s1 where s1: "body x s = Inr s1" "for_loop xs body s1 = Inr s'"
    by (auto simp: bind_res_Inr_iff)
  from Cons.prems(3)[of x s s1] s1(1) Cons.prems(2) have q: "Q s1" "R x" by auto
  have "Q s' \<and> (\<forall>i\<in>set xs. R i)"
    by (rule Cons.IH[OF s1(2) q(1)]) (use Cons.prems(3) in auto)
  with q show ?case by simp
qed

lemma length_on_columns [simp]: "length (on_columns n f r) = length r"
  by (simp add: on_columns_def)

lemma nth_on_columns:
  "k < length r \<Longrightarrow> on_columns n f r ! k = (if k < n then f (r ! k) else r ! k)"
  by (auto simp: on_columns_def nth_append)

lemma on_columns_Suc:
  "j < length r \<Longrightarrow> (on_columns j f r)[j := f (on_columns j f r ! j)] = on_columns (Suc j) f r"
  by (rule nth_equalityI) (auto simp: nth_on_columns nth_list_update)

lemma on_columns_0 [simp]: "on_columns 0 f r = r"
  by (simp add: on_columns_def)

lemma length_rows_from [simp]: "length (rows_from a g t) = length t"
  by (simp add: rows_from_def)

lemma nth_rows_from:
  "k < length t \<Longrightarrow> rows_from a g t ! k = (if k < a then t ! k else g (t ! k))"
  by (auto simp: rows_from_def nth_append min_def)

text \<open>One column of a pass that rewrites cells in place.\<close>

lemma column_loop:
  assumes step: "\<And>i s. i < length s \<Longrightarrow> j < length (s ! i) \<Longrightarrow>
                   body i s = Inr (s[i := (s ! i)[j := f (s ! i ! j)]])"
    and a: "a \<le> length t"
    and wide: "\<forall>i<length t. a \<le> i \<longrightarrow> j < length (t ! i)"
  shows "for_loop [a..<length t] body t = Inr (rows_from a (\<lambda>r. r[j := f (r ! j)]) t)"
proof -
  let ?g = "\<lambda>r. r[j := f (r ! j)]"
  let ?P = "\<lambda>i s. length s = length t \<and> (\<forall>k<length t. s ! k = (if a \<le> k \<and> k < i then ?g (t ! k) else t ! k))"
  have "\<exists>s'. for_loop [a..<length t] body t = Inr s' \<and> ?P (length t) s'"
  proof (rule for_loop_inv[where P = ?P, OF a])
    show "?P a t" by auto
  next
    fix i s assume i: "a \<le> i" "i < length t" and P: "?P i s"
    from P i have si: "s ! i = t ! i" and len: "length s = length t" by auto
    from wide i have j: "j < length (t ! i)" by simp
    have "body i s = Inr (s[i := ?g (t ! i)])"
      using step[of i s] i len si j by simp
    moreover have "?P (Suc i) (s[i := ?g (t ! i)])"
      using P i by (auto simp: nth_list_update less_Suc_eq)
    ultimately show "\<exists>s'. body i s = Inr s' \<and> ?P (Suc i) s'" by blast
  qed
  then obtain s' where s': "for_loop [a..<length t] body t = Inr s'" "?P (length t) s'" by blast
  have "s' = rows_from a ?g t"
    using s'(2) by (intro nth_equalityI) (auto simp: nth_rows_from)
  with s'(1) show ?thesis by simp
qed

text \<open>All columns.\<close>

lemma table_loop:
  assumes step: "\<And>j i s. i < length s \<Longrightarrow> j < length (s ! i) \<Longrightarrow>
                   body j i s = Inr (s[i := (s ! i)[j := f (s ! i ! j)]])"
    and a: "a \<le> length t"
    and wide: "\<forall>i<length t. a \<le> i \<longrightarrow> n \<le> length (t ! i)"
  shows "for_loop [0..<n] (\<lambda>j. for_loop [a..<length t] (body j)) t
           = Inr (rows_from a (on_columns n f) t)"
proof -
  let ?P = "\<lambda>j s. s = rows_from a (on_columns j f) t"
  have "\<exists>s'. for_loop [0..<n] (\<lambda>j. for_loop [a..<length t] (body j)) t = Inr s' \<and> ?P n s'"
  proof (rule for_loop_inv[where P = ?P])
    show "?P 0 t" by (intro nth_equalityI) (auto simp: nth_rows_from)
  next
    fix j s assume j: "0 \<le> j" "j < n" and P: "?P j s"
    let ?g = "\<lambda>r. r[j := f (r ! j)]"
    have len: "length s = length t" using P by simp
    have "for_loop [a..<length s] (body j) s = Inr (rows_from a ?g s)"
    proof (rule column_loop)
      show "a \<le> length s" using a len by simp
      show "\<forall>i<length s. a \<le> i \<longrightarrow> j < length (s ! i)"
        using wide j P by (auto simp: nth_rows_from)
    qed (rule step)
    moreover have "rows_from a ?g s = rows_from a (on_columns (Suc j) f) t"
      using wide j P by (intro nth_equalityI) (auto simp: nth_rows_from on_columns_Suc)
    ultimately show "\<exists>s'. for_loop [a..<length t] (body j) s = Inr s' \<and> ?P (Suc j) s'"
      using len by simp
  qed simp
  then show ?thesis by blast
qed

lemma getitem_simps [simp]:
  "i < length xs \<Longrightarrow> getitem xs i = Inr (xs ! i)"
  "\<not> i < length xs \<Longrightarrow> getitem xs i = Inl IndexError"
  by (simp_all add: getitem_def)

lemma get_cell_Inr [simp]:
  "i < length s \<Longrightarrow> j < length (s ! i) \<Longrightarrow> get_cell s i j = Inr (s ! i ! j)"
  by (simp add: get_cell_def)

lemma set_cell_Inr [simp]:
  "i < length s \<Longrightarrow> j < length (s ! i) \<Longrightarrow> set_cell s i j v = Inr (s[i := (s ! i)[j := v]])"
  by (simp add: set_cell_def setitem_def)

lemma empty_cell_step_Inr:
  "i < length s \<Longrightarrow> j < length (s ! i) \<Longrightarrow>
     empty_cell_step j i s = Inr (s[i := (s ! i)[j := zero_fill (s ! i ! j)]])"
  by (simp add: empty_cell_step_def zero_fill_def)

lemma normalize_step_Inr:
  "i < length s \<Longrightarrow> j < length (s ! i) \<Longrightarrow>
     normalize_step pf j i s = Inr (s[i := (s ! i)[j := normalize_cell pf (s ! i ! j)]])"
  by (simp add: normalize_step_def normalize_cell_def Let_def)

lemma empty_cell_pass_Inr:
  assumes "\<forall>r\<in>set t. n \<le> length r"
  shows "empty_cell_pass n (length t) t = Inr (map (on_columns n zero_fill) t)"
proof -
  have "for_loop [0..<n] (\<lambda>j. for_loop [0..<length t] (empty_cell_step j)) t
          = Inr (rows_from 0 (on_columns n zero_fill) t)"
    by (rule table_loop) (use assms in \<open>auto simp: empty_cell_step_Inr\<close>)
  then show ?thesis by (simp add: empty_cell_pass_def rows_from_def)
qed

lemma normalize_pass_Inr:
  assumes "t \<noteq> []" "\<forall>r\<in>set t. n \<le> length r"
  shows "normalize_pass pf n (length t) t = Inr (hd t # map (on_columns n (normalize_cell pf)) (tl t))"
proof -
  have "for_loop [0..<n] (\<lambda>j. for_loop [1..<length t] (normalize_step pf j)) t
          = Inr (rows_from 1 (on_columns n (normalize_cell pf)) t)"
    by (rule table_loop) (use assms in \<open>auto simp: normalize_step_Inr Suc_le_eq\<close>)
  moreover have "rows_from 1 (on_columns n (normalize_cell pf)) t
      = hd t # map (on_columns n (normalize_cell pf)) (tl t)"
    using assms(1) by (cases t) (simp_all add: rows_from_def)
  ultimately show ?thesis by (simp add: normalize_pass_def)
qed

lemma map_nth_tl: "map (\<lambda>k. f (s ! k)) [Suc 0..<length s] = map f (tl s)"
  by (rule nth_equalityI) (auto simp: nth_tl)

lemma collect_loop:
  assumes "\<forall>i<length s. 1 \<le> i \<longrightarrow> j < length (s ! i)"
  shows "for_loop [1..<length s] (collect_step s j) ct = Inr (ct @ map (\<lambda>r. r ! j) (tl s))"
proof (cases "s = []")
  case True
  then show ?thesis by simp
next
  case False
  let ?P = "\<lambda>i c. c = ct @ map (\<lambda>k. s ! k ! j) [1..<i]"
  have "\<exists>c. for_loop [1..<length s] (collect_step s j) ct = Inr c \<and> ?P (length s) c"
  proof (rule for_loop_inv[where P = ?P])
    show "1 \<le> length s" using False by (cases s) simp_all
    show "?P 1 ct" by simp
  next
    fix i c assume "1 \<le> i" "i < length s" "?P i c"
    then show "\<exists>c'. collect_step s j i c = Inr c' \<and> ?P (Suc i) c'"
      using assms by (simp add: collect_step_def)
  qed
  then show ?thesis using map_nth_tl[of "\<lambda>r. r ! j" s] by simp
qed

lemma unique_pass_Inr:
  assumes "\<forall>i<length s. 1 \<le> i \<longrightarrow> n \<le> length (s ! i)"
  shows "unique_pass n (length s) s
           = Inr ([], map (\<lambda>j. domain_text (map (\<lambda>r. r ! j) (tl s))) [0..<n])"
proof -
  let ?P = "\<lambda>j st. st = ([]::string list, map (\<lambda>j. domain_text (map (\<lambda>r. r ! j) (tl s))) [0..<j])"
  have "\<exists>st. for_loop [0..<n] (unique_step (length s) s) ([], []) = Inr st \<and> ?P n st"
  proof (rule for_loop_inv[where P = ?P])
    fix j st assume j: "0 \<le> j" "j < n" and P: "?P j st"
    have "for_loop [1..<length s] (collect_step s j) [] = Inr ([] @ map (\<lambda>r. r ! j) (tl s))"
      by (rule collect_loop) (use assms j in auto)
    then show "\<exists>st'. unique_step (length s) s j st = Inr st' \<and> ?P (Suc j) st'"
      using P by (simp add: unique_step_def domain_text_def)
  qed simp_all
  then show ?thesis by (simp add: unique_pass_def)
qed

lemma datatype_row_loop:
  assumes "n \<le> length r" "k < length s" "s ! k = r"
  shows "for_loop [0..<n] (datatype_step s k) dt = Inr (dt @ map cell_type (take n r))"
proof -
  let ?P = "\<lambda>i d. d = dt @ map cell_type (take i r)"
  have "\<exists>d. for_loop [0..<n] (datatype_step s k) dt = Inr d \<and> ?P n d"
  proof (rule for_loop_inv[where P = ?P])
    fix i d assume "0 \<le> i" "i < n" "?P i d"
    then show "\<exists>d'. datatype_step s k i d = Inr d' \<and> ?P (Suc i) d'"
      using assms by (simp add: datatype_step_def cell_type_def take_Suc_conv_app_nth)
  qed simp_all
  then show ?thesis by blast
qed

lemma datatype_pass_Inr:
  assumes "\<forall>i<length s. 1 \<le> i \<longrightarrow> n \<le> length (s ! i)"
  shows "datatype_pass n (length s) s = Inr (concat (map (\<lambda>r. map cell_type (take n r)) (tl s)))"
proof (cases "s = []")
  case True
  then show ?thesis by (simp add: datatype_pass_def)
next
  case False
  let ?row = "\<lambda>r. map cell_type (take n r)"
  let ?P = "\<lambda>k d. d = concat (map (\<lambda>i. ?row (s ! i)) [1..<k])"
  have "\<exists>d. for_loop [1..<length s] (\<lambda>j. for_loop [0..<n] (datatype_step s j)) [] = Inr d
           \<and> ?P (length s) d"
  proof (rule for_loop_inv[where P = ?P])
    show "1 \<le> length s" using False by (cases s) simp_all
    show "?P 1 []" by simp
  next
    fix k d assume k: "1 \<le> k" "k < length s" and P: "?P k d"
    have "for_loop [0..<n] (datatype_step s k) d = Inr (d @ ?row (s ! k))"
      by (rule datatype_row_loop) (use assms k in auto)
    then show "\<exists>d'. for_loop [0..<n] (datatype_step s k) d = Inr d' \<and> ?P (Suc k) d'"
      using P k by simp
  qed
  then show ?thesis using map_nth_tl[of ?row s] by (simp add: datatype_pass_def)
qed

lemma nth_concat_blocks:
  assumes "\<forall>x\<in>set xss. length x = n" "q < length xss" "j < n"
  shows "concat xss ! (j + q * n) = xss ! q ! j"
  using assms
proof (induction xss arbitrary: q)
  case Nil
  then show ?case by simp
next
  case (Cons x xss)
  show ?case
  proof (cases q)
    case 0
    with Cons.prems show ?thesis by (simp add: nth_append)
  next
    case (Suc q')
    with Cons.prems have "concat xss ! (j + q' * n) = xss ! q' ! j"
      by (intro Cons.IH) auto
    with Suc Cons.prems show ?thesis by (simp add: nth_append)
  qed
qed

lemma length_concat_blocks:
  "\<forall>x\<in>set xss. length x = n \<Longrightarrow> length (concat xss) = length xss * n"
  by (induction xss) simp_all

lemma block_index_less:
  assumes "j < n" "q < m"
  shows "j + q * n < m * (n::nat)"
proof -
  have "j + q * n < Suc q * n" using assms(1) by simp
  also have "\<dots> \<le> m * n" using assms(2) by (intro mult_le_mono1) simp
  finally show ?thesis .
qed

lemma gather_loop:
  assumes "\<forall>q<m. j + q * n < length dt"
  shows "for_loop [0..<m] (gather_step dt n) (j, tmp)
           = Inr (j + m * n, tmp @ map (\<lambda>q. dt ! (j + q * n)) [0..<m])"
proof -
  let ?P = "\<lambda>i st. st = (j + i * n, tmp @ map (\<lambda>q. dt ! (j + q * n)) [0..<i])"
  have "\<exists>st. for_loop [0..<m] (gather_step dt n) (j, tmp) = Inr st \<and> ?P m st"
  proof (rule for_loop_inv[where P = ?P])
    fix i st assume "0 \<le> i" "i < m" "?P i st"
    then show "\<exists>st'. gather_step dt n i st = Inr st' \<and> ?P (Suc i) st'"
      using assms by (simp add: gather_step_def)
  qed simp_all
  then show ?thesis by blast
qed

lemma final_pass_Inr:
  assumes s: "s \<noteq> []" "\<forall>r\<in>set (tl s). n \<le> length r"
    and dt: "dt = concat (map (\<lambda>r. map cell_type (take n r)) (tl s))"
  shows "\<exists>p. final_pass n (length s) dt
           = Inr (p, [], map (\<lambda>j. column_type (map (\<lambda>r. r ! j) (tl s))) [0..<n])"
proof -
  let ?m = "length s - 1"
  let ?blocks = "map (\<lambda>r. map cell_type (take n r)) (tl s)"
  have blocks: "\<forall>x\<in>set ?blocks. length x = n" using s(2) by auto
  have len: "length dt = ?m * n"
    using length_concat_blocks[OF blocks] dt by simp
  have cell: "dt ! (j + q * n) = cell_type (tl s ! q ! j)" if "j < n" "q < ?m" for j q
  proof -
    have "dt ! (j + q * n) = ?blocks ! q ! j"
      unfolding dt by (rule nth_concat_blocks[OF blocks]) (use that in auto)
    also have "\<dots> = cell_type (tl s ! q ! j)" using that s(2) by simp
    finally show ?thesis .
  qed
  have col: "map (\<lambda>q. dt ! (j + q * n)) [0..<?m] = map (\<lambda>r. cell_type (r ! j)) (tl s)"
    if "j < n" for j
    using that by (intro nth_equalityI) (auto simp: cell)
  have ctype: "(if ''nominal'' \<in> set (map (\<lambda>r. cell_type (r ! j)) (tl s)) then ''nominal''
              else ''numeric'') = column_type (map (\<lambda>r. r ! j) (tl s))" for j
    by (auto simp: column_type_def cell_type_def)
  let ?P = "\<lambda>j st. \<exists>p::nat. st = (p, []::string list, map (\<lambda>j. column_type (map (\<lambda>r. r ! j) (tl s))) [0..<j])"
  have "\<exists>st. for_loop [0..<n] (final_step dt n (length s)) (0, [], []) = Inr st \<and> ?P n st"
  proof (rule for_loop_inv[where P = ?P])
    fix j st assume j: "0 \<le> j" "j < n" and P: "?P j st"
    have "for_loop [0..<?m] (gather_step dt n) (j, [])
            = Inr (j + ?m * n, [] @ map (\<lambda>q. dt ! (j + q * n)) [0..<?m])"
      by (rule gather_loop) (use j len in \<open>auto intro: block_index_less\<close>)
    moreover from P obtain p where "st = (p, [], map (\<lambda>j. column_type (map (\<lambda>r. r ! j) (tl s))) [0..<j])"
      by blast
    ultimately have "final_step dt n (length s) j st
        = Inr (j + ?m * n, [], map (\<lambda>j. column_type (map (\<lambda>r. r ! j) (tl s))) [0..<j]
            @ [if ''nominal'' \<in> set (map (\<lambda>q. dt ! (j + q * n)) [0..<?m]) then ''nominal''
               else ''numeric''])"
      by (simp add: final_step_def del: set_map)
    then have "final_step dt n (length s) j st
        = Inr (j + ?m * n, [], map (\<lambda>j. column_type (map (\<lambda>r. r ! j) (tl s))) [0..<Suc j])"
      unfolding col[OF j(2)] ctype by simp
    then show "\<exists>st'. final_step dt n (length s) j st = Inr st' \<and> ?P (Suc j) st'"
      by blast
  qed simp_all
  then show ?thesis by (auto simp: final_pass_def)
qed

lemma atttypes_pass_Inr:
  assumes "length fin \<le> length uniq"
  shows "atttypes_pass fin uniq
           = Inr (map (\<lambda>k. if fin ! k = ''nominal'' then uniq ! k else fin ! k) [0..<length fin])"
proof -
  let ?P = "\<lambda>i att. att = map (\<lambda>k. if fin ! k = ''nominal'' then uniq ! k else fin ! k) [0..<i]"
  have "\<exists>att. for_loop [0..<length fin] (atttypes_step fin uniq) [] = Inr att \<and> ?P (length fin) att"
  proof (rule for_loop_inv[where P = ?P])
    fix i att assume "0 \<le> i" "i < length fin" "?P i att"
    then show "\<exists>att'. atttypes_step fin uniq i att = Inr att' \<and> ?P (Suc i) att'"
      using assms by (simp add: atttypes_step_def)
  qed simp_all
  then show ?thesis by (simp add: atttypes_pass_def)
qed

lemma on_columns_twice: "on_columns n f (on_columns n g r) = on_columns n (\<lambda>v. f (g v)) r"
  by (rule nth_equalityI) (auto simp: nth_on_columns)

lemma on_columns_all: "length r \<le> n \<Longrightarrow> on_columns n f r = map f r"
  by (simp add: on_columns_def)

lemma column_final_table:
  assumes "\<forall>r\<in>set (tl t). length (hd t) \<le> length r" "j < length (hd t)"
  shows "map (\<lambda>r. r ! j) (tl (final_table pf t)) = map (normalized pf) (column t j)"
  using assms by (auto simp: final_table_def column_def nth_on_columns)

lemma normalized_eta: "(\<lambda>v. normalize_cell pf (zero_fill v)) = normalized pf"
  by (simp add: normalized_def fun_eq_iff)

lemma column_type_cases:
  "(if column_type vs = ''nominal'' then domain_text vs else column_type vs)
     = (if \<forall>v\<in>set vs. float_ok v then ''numeric'' else domain_text vs)"
  by (simp add: column_type_def)

lemma exn_is_IndexError: "(e::exn) = IndexError"
  by (cases e) simp

lemma analyse_Inr:
  assumes "wide_enough t"
  shows "analyse pf t
           = Inr (length (hd t), length t, final_table pf t, map (att_type pf t) [0..<length (hd t)])"
proof -
  let ?n = "length (hd t)"
  from assms have ne: "t \<noteq> []" and wide: "\<forall>r\<in>set t. ?n \<le> length r"
    by (simp_all add: wide_enough_def)
  from ne have get0: "getitem t 0 = Inr (hd t)" by (cases t) simp_all
  let ?t1 = "map (on_columns ?n zero_fill) t"
  have p1: "empty_cell_pass ?n (length t) t = Inr ?t1"
    by (rule empty_cell_pass_Inr[OF wide])
  have "normalize_pass pf ?n (length ?t1) ?t1
          = Inr (hd ?t1 # map (on_columns ?n (normalize_cell pf)) (tl ?t1))"
    by (rule normalize_pass_Inr) (use ne wide in auto)
  moreover have "hd ?t1 # map (on_columns ?n (normalize_cell pf)) (tl ?t1) = final_table pf t"
    using ne by (cases t) (simp_all add: final_table_def on_columns_twice on_columns_all normalized_eta)
  ultimately have p2: "normalize_pass pf ?n (length t) ?t1 = Inr (final_table pf t)" by simp
  let ?s = "final_table pf t"
  have len: "length ?s = length t" using ne by (cases t) (simp_all add: final_table_def)
  have tl_wide: "\<forall>r\<in>set (tl ?s). ?n \<le> length r"
    using wide ne by (cases t) (auto simp: final_table_def)
  have tl_wide0: "\<forall>r\<in>set (tl t). ?n \<le> length r"
    using wide ne by (cases t) auto
  have rows_wide: "\<forall>i<length ?s. 1 \<le> i \<longrightarrow> ?n \<le> length (?s ! i)"
  proof (intro allI impI)
    fix i assume "i < length ?s" "1 \<le> i"
    then have "?s ! i \<in> set (tl ?s)" by (cases i) (auto simp: final_table_def)
    with tl_wide show "?n \<le> length (?s ! i)" by blast
  qed
  let ?uniq = "map (\<lambda>j. domain_text (map (\<lambda>r. r ! j) (tl ?s))) [0..<?n]"
  let ?fin = "map (\<lambda>j. column_type (map (\<lambda>r. r ! j) (tl ?s))) [0..<?n]"
  have p3: "unique_pass ?n (length t) ?s = Inr ([], ?uniq)"
    using unique_pass_Inr[OF rows_wide] len by simp
  have p4: "datatype_pass ?n (length t) ?s
              = Inr (concat (map (\<lambda>r. map cell_type (take ?n r)) (tl ?s)))"
    using datatype_pass_Inr[OF rows_wide] len by simp
  have "\<exists>p. final_pass ?n (length ?s) (concat (map (\<lambda>r. map cell_type (take ?n r)) (tl ?s)))
             = Inr (p, [], ?fin)"
    by (rule final_pass_Inr[OF _ tl_wide]) (simp_all add: final_table_def)
  then obtain p where p5: "final_pass ?n (length t)
      (concat (map (\<lambda>r. map cell_type (take ?n r)) (tl ?s))) = Inr (p, [], ?fin)"
    using len by auto
  have "atttypes_pass ?fin ?uniq
          = Inr (map (\<lambda>k. if ?fin ! k = ''nominal'' then ?uniq ! k else ?fin ! k) [0..<length ?fin])"
    by (rule atttypes_pass_Inr) simp
  moreover have "map (\<lambda>k. if ?fin ! k = ''nominal'' then ?uniq ! k else ?fin ! k) [0..<length ?fin]
      = map (att_type pf t) [0..<?n]"
  proof (rule nth_equalityI)
    fix k assume "k < length (map (\<lambda>k. if ?fin ! k = ''nominal'' then ?uniq ! k else ?fin ! k)
                     [0..<length ?fin])"
    then have k: "k < ?n" by simp
    have col: "map (\<lambda>r. r ! k) (tl ?s) = map (normalized pf) (column t k)"
      by (rule column_final_table[OF tl_wide0 k])
    let ?vs = "map (normalized pf) (column t k)"
    have "map (\<lambda>k. if ?fin ! k = ''nominal'' then ?uniq ! k else ?fin ! k) [0..<length ?fin] ! k
            = (if column_type ?vs = ''nominal'' then domain_text ?vs else column_type ?vs)"
      using k by (simp add: col)
    also have "\<dots> = att_type pf t k"
      by (simp only: column_type_cases att_type_def Let_def)
    finally show "map (\<lambda>k. if ?fin ! k = ''nominal'' then ?uniq ! k else ?fin ! k)
                    [0..<length ?fin] ! k = map (att_type pf t) [0..<?n] ! k"
      using k by simp
  qed simp
  ultimately have p6: "atttypes_pass ?fin ?uniq = Inr (map (att_type pf t) [0..<?n])" by simp
  show ?thesis
    by (simp add: analyse_def get0 p1 p2 p3 p4 p5 p6 Let_def)
qed

lemma empty_cell_step_Inr_D:
  assumes "empty_cell_step j i s = Inr s'"
  shows "i < length s \<and> j < length (s ! i) \<and> map length s' = map length s"
proof -
  from assms obtain v where v: "get_cell s i j = Inr v"
    by (auto simp: empty_cell_step_def bind_res_Inr_iff)
  then have ij: "i < length s \<and> j < length (s ! i)"
    by (auto simp: get_cell_def getitem_def bind_res_Inr_iff split: if_splits)
  with assms have "s' = s \<or> s' = s[i := (s ! i)[j := ''0'']]"
    by (auto simp: empty_cell_step_def split: if_splits)
  then have "map length s' = map length s"
    using ij by (auto simp: map_update list_update_same_conv)
  with ij show ?thesis by simp
qed

lemma empty_cell_pass_Inr_D:
  assumes "empty_cell_pass n (length t) t = Inr s'"
  shows "\<forall>j<n. \<forall>i<length t. j < length (t ! i)"
proof -
  let ?Q = "\<lambda>s. map length s = map length t"
  have "?Q s' \<and> (\<forall>j\<in>set [0..<n]. \<forall>i<length t. j < length (t ! i))"
  proof (rule for_loop_Inr_steps[where Q = ?Q])
    show "for_loop [0..<n] (\<lambda>j. for_loop [0..<length t] (empty_cell_step j)) t = Inr s'"
      using assms by (simp add: empty_cell_pass_def)
    show "?Q t" by simp
  next
    fix j s s1
    assume Q: "?Q s" and run: "for_loop [0..<length t] (empty_cell_step j) s = Inr s1"
    have "?Q s1 \<and> (\<forall>i\<in>set [0..<length t]. j < length (t ! i))"
    proof (rule for_loop_Inr_steps[where Q = ?Q, OF run Q])
      fix i u u'
      assume i: "i \<in> set [0..<length t]" and Qu: "?Q u" and st: "empty_cell_step j i u = Inr u'"
      from empty_cell_step_Inr_D[OF st]
      have d: "i < length u" "j < length (u ! i)" "map length u' = map length u" by simp_all
      from Qu i have "length (u ! i) = length (t ! i)"
        by (metis atLeastLessThan_iff length_map nth_map set_upt)
      with d Qu show "?Q u' \<and> j < length (t ! i)" by simp
    qed
    then show "?Q s1 \<and> (\<forall>i<length t. j < length (t ! i))" by simp
  qed
  then show ?thesis by simp
qed

lemma analyse_Inl:
  assumes "\<not> wide_enough t"
  shows "analyse pf t = Inl IndexError"
proof (cases "t = []")
  case True
  then show ?thesis by (simp add: analyse_def)
next
  case False
  then have get0: "getitem t 0 = Inr (hd t)" by (cases t) simp_all
  from assms False obtain r where r: "r \<in> set t" "length r < length (hd t)"
    by (auto simp: wide_enough_def not_le)
  then obtain i where i: "i < length t" "t ! i = r" by (auto simp: in_set_conv_nth)
  have "empty_cell_pass (length (hd t)) (length t) t = Inl IndexError"
  proof (cases "empty_cell_pass (length (hd t)) (length t) t")
    case (Inl e)
    then show ?thesis by (simp add: exn_is_IndexError[of e])
  next
    case (Inr s')
    from empty_cell_pass_Inr_D[OF Inr] r(2) i have False by auto
    then show ?thesis ..
  qed
  then show ?thesis by (simp add: analyse_def get0)
qed

section \<open>The whole call\<close>

lemma write_loop_all:
  "\<forall>i\<in>set xs. line i = Inr (f i) \<Longrightarrow> write_loop xs line out = (out @ map f xs, None)"
  by (induction xs arbitrary: out) simp_all

lemma length_final_table: "t \<noteq> [] \<Longrightarrow> length (final_table pf t) = length t"
  by (cases t) (simp_all add: final_table_def)

lemma write_arff_ok:
  assumes "wide_enough t"
  shows "write_arff (length (hd t)) (length t) (final_table pf t)
           (map (att_type pf t) [0..<length (hd t)]) relation = (arff_writes pf t relation, None)"
proof -
  let ?n = "length (hd t)" and ?s = "final_table pf t"
  let ?att = "\<lambda>j. ''@attribute '' @ [sq] @ zero_fill (hd t ! j) @ [sq] @ '' '' @ att_type pf t j @ [nl]"
  let ?row = "\<lambda>r. join '','' r @ [nl]"
  from assms have ne: "t \<noteq> []" by (simp add: wide_enough_def)
  have len: "length ?s = length t" by (rule length_final_table[OF ne])
  have "\<forall>j\<in>set [0..<?n]. attribute_line ?s (map (att_type pf t) [0..<?n]) j = Inr (?att j)"
    by (auto simp: attribute_line_def final_table_def)
  then have w1: "write_loop [0..<?n] (attribute_line ?s (map (att_type pf t) [0..<?n])) out
                   = (out @ map ?att [0..<?n], None)" for out
    by (rule write_loop_all)
  have "\<forall>i\<in>set [1..<length t]. data_line ?s i = Inr (?row (?s ! i))"
    using len by (auto simp: data_line_def)
  then have "write_loop [1..<length t] (data_line ?s) out
               = (out @ map (\<lambda>i. ?row (?s ! i)) [1..<length t], None)" for out
    by (rule write_loop_all)
  moreover have "map (\<lambda>i. ?row (?s ! i)) [1..<length t] = map ?row (tl ?s)"
    using map_nth_tl[of ?row ?s] len by simp
  ultimately have w2: "write_loop [1..<length t] (data_line ?s) out = (out @ map ?row (tl ?s), None)"
    for out by simp
  have "write_arff ?n (length t) ?s (map (att_type pf t) [0..<?n]) relation
          = ((comment_block ?n (length t) relation @ map ?att [0..<?n]) @ [[nl] @ ''@data'' @ [nl]]
               @ map ?row (tl ?s), None)"
    unfolding write_arff_def w1 prod.case option.case w2 append_assoc ..
  also have "\<dots> = (arff_writes pf t relation, None)"
    by (simp add: arff_writes_def final_table_def comp_def)
  finally show ?thesis .
qed

lemma csv_to_arff_ok:
  assumes "wide_enough t"
  shows "csv_to_arff pf (ReadOk t) OpenOk fileToRead fileToWrite relation
           = Returns ([sq] @ fileToWrite @ [sq] @ '' was converted from '' @ [sq] @ fileToRead @ [sq])
               (Some (arff_writes pf t relation))"
  by (simp add: csv_to_arff_def analyse_Inr[OF assms] write_arff_ok[OF assms])

lemma csv_to_arff_open_fails:
  assumes "wide_enough t"
  shows "csv_to_arff pf (ReadOk t) (OpenException e) fileToRead fileToWrite relation
           = Returns (''Error writing to file '' @ [sq] @ fileToWrite @ [sq] @ '': '' @ e) None"
  by (simp add: csv_to_arff_def analyse_Inr[OF assms])

lemma csv_to_arff_raises:
  assumes "\<not> wide_enough t"
  shows "csv_to_arff pf (ReadOk t) wr fileToRead fileToWrite relation = Raises IndexError"
  by (simp add: csv_to_arff_def analyse_Inl[OF assms])

lemma fromkeys_append:
  "fromkeys keys xs
     = keys @ map (\<lambda>i. xs ! i) (filter (\<lambda>i. xs ! i \<notin> set keys \<union> set (take i xs)) [0..<length xs])"
proof (induction xs arbitrary: keys)
  case Nil
  then show ?case by simp
next
  case (Cons x xs)
  have upt: "[0..<length (x # xs)] = 0 # map Suc [0..<length xs]"
    by (simp add: upt_conv_Cons map_Suc_upt del: upt_Suc)
  show ?case
    unfolding upt
    by (auto simp: Cons.IH filter_map comp_def intro!: arg_cong[where f = "map ((!) xs)"] filter_cong)
qed

lemma fromkeys_first_occurrences: "fromkeys [] xs = first_occurrences xs"
  by (simp add: fromkeys_append first_occurrences_def)

lemma set_fromkeys: "set (fromkeys keys xs) = set keys \<union> set xs"
  by (induction xs arbitrary: keys) auto

lemma distinct_fromkeys: "distinct keys \<Longrightarrow> distinct (fromkeys keys xs)"
  by (induction xs arbitrary: keys) auto

lemma length_comment_block [simp]: "length (comment_block n m relation) = 4"
  by (simp add: comment_block_def)

lemma nth_arff_writes_attribute:
  "j < length (hd t) \<Longrightarrow>
     arff_writes pf t relation ! (4 + j)
       = ''@attribute '' @ [sq] @ zero_fill (hd t ! j) @ [sq] @ '' '' @ att_type pf t j @ [nl]"
  by (simp add: arff_writes_def nth_append)

lemma written_ok:
  "wide_enough t \<Longrightarrow>
     written (csv_to_arff pf (ReadOk t) OpenOk fileToRead fileToWrite relation)
       = Some (arff_writes pf t relation)"
  by (simp add: csv_to_arff_ok)

lemma domain_text_not_numeric: "domain_text vs \<noteq> ''numeric''"
  by (simp add: domain_text_def)

lemma normalized_empty: "normalized pf [] = ''0''"
proof (cases pf)
  case Posix
  have "normalized Posix [] = ''0''" by code_simp
  with Posix show ?thesis by simp
next
  case Windows
  have "normalized Windows [] = ''0''" by code_simp
  with Windows show ?thesis by simp
qed

lemma float_ok_zero: "float_ok ''0''"
  by code_simp

lemma nth_final_table:
  assumes "wide_enough t" "1 \<le> i" "i < length t" "j < length (hd t)"
  shows "final_table pf t ! i ! j = normalized pf (t ! i ! j)"
proof -
  from assms(1,3) have "length (hd t) \<le> length (t ! i)" by (simp add: wide_enough_def)
  with assms show ?thesis
    by (cases t; cases i) (simp_all add: final_table_def nth_on_columns)
qed

lemma rectangular_wide_enough: "rectangular t \<Longrightarrow> wide_enough t"
  unfolding rectangular_def wide_enough_def by (metis order_refl)

section \<open>The claims\<close>

text \<open>
  C1. For every table the program can convert (a header row, no row shorter than it) and
  every column \<open>j\<close> of the header, the attribute line written for the column carries the
  type \<open>numeric\<close> if and only if the normalized value of every data-row cell of the column
  parses as a floating-point number; if some cell does not parse, the line carries the
  brace list of the column, the form in which a nominal type is emitted.
\<close>

theorem type_numeric_iff_all_cells_parse:
  assumes "wide_enough t" and "j < length (hd t)"
  shows "\<exists>out ty.
     written (csv_to_arff pf (ReadOk t) OpenOk fileToRead fileToWrite relation) = Some out
     \<and> out ! (4 + j) = ''@attribute '' @ [sq] @ zero_fill (hd t ! j) @ [sq] @ '' '' @ ty @ [nl]
     \<and> (ty = ''numeric'' \<longleftrightarrow> (\<forall>v\<in>set (column t j). float_ok (normalized pf v)))
     \<and> ((\<exists>v\<in>set (column t j). \<not> float_ok (normalized pf v))
          \<longrightarrow> ty = domain_text (map (normalized pf) (column t j)))"
proof -
  have "att_type pf t j = ''numeric'' \<longleftrightarrow> (\<forall>v\<in>set (column t j). float_ok (normalized pf v))"
    by (simp add: att_type_def Let_def domain_text_not_numeric)
  moreover have "(\<exists>v\<in>set (column t j). \<not> float_ok (normalized pf v))
      \<longrightarrow> att_type pf t j = domain_text (map (normalized pf) (column t j))"
    by (auto simp: att_type_def Let_def)
  ultimately show ?thesis
    using written_ok[OF assms(1)] nth_arff_writes_attribute[OF assms(2)] by blast
qed

theorem type_numeric_iff_all_cells_parse_witness:
  "wide_enough example_table \<and> (1::nat) < length (hd example_table)
   \<and> (\<exists>out ty.
         written (csv_to_arff Posix (ReadOk example_table) OpenOk ''in.csv'' ''out.arff'' ''people'')
           = Some out
         \<and> out ! (4 + 1) = ''@attribute '' @ [sq] @ ''age'' @ [sq] @ '' '' @ ty @ [nl]
         \<and> ty = ''numeric'')"
proof -
  have h1: "wide_enough example_table" by code_simp
  have h2: "(1::nat) < length (hd example_table)" by code_simp
  have name: "zero_fill (hd example_table ! 1) = ''age''" by code_simp
  have cells: "\<forall>v\<in>set (column example_table 1). float_ok (normalized Posix v)" by code_simp
  from type_numeric_iff_all_cells_parse[OF h1 h2, of Posix "''in.csv''" "''out.arff''" "''people''"]
  show ?thesis using h1 h2 cells unfolding name by blast
qed

text \<open>
  C2, as stated: every error is caught inside the call, and a row shorter than the header
  makes the call report a failure and return. It does not: on the table below the access
  \<open>allData[1][1]\<close> of the empty-cell pass (line 74) raises \<open>IndexError\<close>, no \<open>try\<close> block
  encloses it, and the call raises to its caller.
\<close>

theorem short_row_raises_counterexample:
  "csv_to_arff Posix (ReadOk short_row_table) OpenOk ''in.csv'' ''out.arff'' ''r''
     = Raises IndexError"
  by code_simp

text \<open>
  C2, amended. The failures of opening and reading the source (lines 56 to 65) and of
  opening the destination (lines 123 to 139) are caught: the call prints a message and
  returns, and the destination is untouched. A table with a header row and no row shorter
  than it is converted and the call returns. A table with no row, or with a row shorter
  than the header, makes the call raise \<open>IndexError\<close> to its caller; this happens before the
  destination is opened, so nothing is written.
\<close>

theorem io_errors_caught_short_rows_raise:
  "(\<exists>msg. csv_to_arff pf FileNotFoundError wr fileToRead fileToWrite relation = Returns msg None)
   \<and> (\<exists>msg. csv_to_arff pf (ReadException e) wr fileToRead fileToWrite relation = Returns msg None)
   \<and> (wide_enough t \<longrightarrow>
        (\<exists>msg. csv_to_arff pf (ReadOk t) (OpenException e') fileToRead fileToWrite relation
                 = Returns msg None)
        \<and> (\<exists>msg out. csv_to_arff pf (ReadOk t) OpenOk fileToRead fileToWrite relation
                 = Returns msg (Some out)))
   \<and> (\<not> wide_enough t' \<longrightarrow>
        csv_to_arff pf (ReadOk t') wr fileToRead fileToWrite relation = Raises IndexError)"
  by (simp add: csv_to_arff_ok csv_to_arff_open_fails csv_to_arff_raises)
    (simp add: csv_to_arff_def)

theorem io_errors_caught_short_rows_raise_witness:
  "wide_enough example_table \<and> \<not> wide_enough ragged_table
   \<and> (\<exists>msg. csv_to_arff Posix (ReadOk example_table) (OpenException ''Permission denied'')
               ''in.csv'' ''out.arff'' ''r'' = Returns msg None)
   \<and> csv_to_arff Posix (ReadOk ragged_table) OpenOk ''in.csv'' ''out.arff'' ''r'' = Raises IndexError"
proof -
  have h1: "wide_enough example_table" by code_simp
  have h2: "\<not> wide_enough ragged_table" by code_simp
  from io_errors_caught_short_rows_raise[of Posix OpenOk "''in.csv''" "''out.arff''" "''r''"
      "''e''" example_table "''Permission denied''" ragged_table]
  show ?thesis using h1 h2 by blast
qed

text \<open>
  C3, as stated: the normalized form of a data cell has every trailing or embedded
  \<open>\n\<close> and \<open>\r\<close> removed. It has not: \<open>strip\<close> works at the two ends of the string only, and
  the cell \<open>a\nb\<close> is left as \<open>"a\nb"\<close> where the description gives \<open>"ab"\<close>.
\<close>

theorem embedded_newline_kept_counterexample:
  "analyse Posix newline_table
     = Inr (1, 2, [[''h''], [[dq] @ ''a'' @ [nl] @ ''b'' @ [dq]]],
            [''{'' @ [dq] @ ''a'' @ [nl] @ ''b'' @ [dq] @ ''}''])
   \<and> map spec_normalized_cell (column newline_table 0) = [[dq] @ ''ab'' @ [dq]]
   \<and> map spec_normalized_cell (column newline_table 0) \<noteq> [[dq] @ ''a'' @ [nl] @ ''b'' @ [dq]]"
  by code_simp

text \<open>
  C3, amended. For every data-row cell in a column of the header, the normalized form is
  obtained from the cell as the empty-cell pass left it by: lower-casing; removing, at
  both ends of the string only, the characters of \<open>os.linesep\<close>, then \<open>\n\<close>, then \<open>\r\<close>
  (\<open>strip(os.linesep).strip("\n").strip("\r")\<close>: what is inside the string stays);
  prefixing every single quote and every double quote with a backslash; and wrapping the
  result in double quotes if and only if it does not parse as a floating-point number.
\<close>

theorem normalized_cell_form:
  assumes "wide_enough t" and "1 \<le> i" and "i < length t" and "j < length (hd t)"
  shows "\<exists>t' att. analyse pf t = Inr (length (hd t), length t, t', att)
     \<and> t' ! i ! j =
        (let v = (if t ! i ! j = [] then ''0'' else t ! i ! j);
             w = replace dq [bsl, dq] (replace sq [bsl, sq]
                   (strip [cr] (strip [nl] (strip (linesep pf) (lower v)))))
         in if float_ok w then w else [dq] @ w @ [dq])"
  using analyse_Inr[OF assms(1), of pf] nth_final_table[OF assms, of pf]
  by (simp add: normalized_def normalize_cell_def zero_fill_def Let_def)

theorem normalized_cell_form_witness:
  "wide_enough newline_table \<and> (1::nat) \<le> 1 \<and> 1 < length newline_table
   \<and> 0 < length (hd newline_table)
   \<and> (\<exists>t' att. analyse Posix newline_table = Inr (1, 2, t', att)
         \<and> t' ! 1 ! 0 = [dq] @ ''a'' @ [nl] @ ''b'' @ [dq])"
proof -
  have h1: "wide_enough newline_table" by code_simp
  have h2: "(1::nat) \<le> 1" by simp
  have h3: "1 < length newline_table" by code_simp
  have h4: "0 < length (hd newline_table)" by code_simp
  have v: "(let v = (if newline_table ! 1 ! 0 = [] then ''0'' else newline_table ! 1 ! 0);
             w = replace dq [bsl, dq] (replace sq [bsl, sq]
                   (strip [cr] (strip [nl] (strip (linesep Posix) (lower v)))))
         in if float_ok w then w else [dq] @ w @ [dq]) = [dq] @ ''a'' @ [nl] @ ''b'' @ [dq]"
    by code_simp
  have l: "length (hd newline_table) = 1" "length newline_table = 2" by code_simp+
  from normalized_cell_form[OF h1 h2 h3 h4, of Posix]
  show ?thesis using h1 h2 h3 h4 unfolding v l by blast
qed

text \<open>
  C4. For every column with a data cell whose normalized value does not parse (a nominal
  column), the domain written in its attribute line is the brace-delimited, comma-joined
  list of the normalized values of the column at their first occurrences, in the order of
  these occurrences: it has no duplicates and holds exactly the values of the column.
\<close>

theorem nominal_domain_first_occurrences:
  assumes "wide_enough t" and "j < length (hd t)"
    and "\<exists>v\<in>set (column t j). \<not> float_ok (normalized pf v)"
  shows "\<exists>out vs.
     written (csv_to_arff pf (ReadOk t) OpenOk fileToRead fileToWrite relation) = Some out
     \<and> vs = first_occurrences (map (normalized pf) (column t j))
     \<and> out ! (4 + j) = ''@attribute '' @ [sq] @ zero_fill (hd t ! j) @ [sq] @ '' ''
                          @ ''{'' @ join '','' vs @ ''}'' @ [nl]
     \<and> distinct vs
     \<and> set vs = set (map (normalized pf) (column t j))"
proof -
  let ?col = "map (normalized pf) (column t j)"
  from assms(3) have "att_type pf t j = ''{'' @ join '','' (first_occurrences ?col) @ ''}''"
    by (auto simp: att_type_def Let_def domain_text_def fromkeys_first_occurrences)
  moreover have "distinct (first_occurrences ?col)"
    using distinct_fromkeys[of "[]" ?col] by (simp add: fromkeys_first_occurrences)
  moreover have "set (first_occurrences ?col) = set ?col"
    using set_fromkeys[of "[]" ?col] by (simp add: fromkeys_first_occurrences)
  ultimately show ?thesis
    using written_ok[OF assms(1)] nth_arff_writes_attribute[OF assms(2), of pf relation] by simp
qed

theorem nominal_domain_first_occurrences_witness:
  "wide_enough colour_table \<and> (0::nat) < length (hd colour_table)
   \<and> \<not> float_ok (normalized Posix ''Red'')
   \<and> (\<exists>out. written (csv_to_arff Posix (ReadOk colour_table) OpenOk ''in.csv'' ''out.arff'' ''r'')
               = Some out
         \<and> out ! (4 + 0) = ''@attribute '' @ [sq] @ ''Colour'' @ [sq] @ '' ''
              @ ''{'' @ [dq] @ ''red'' @ [dq] @ '','' @ [dq] @ ''blue'' @ [dq] @ ''}'' @ [nl])"
proof -
  have h1: "wide_enough colour_table" by code_simp
  have h2: "(0::nat) < length (hd colour_table)" by code_simp
  have red: "\<not> float_ok (normalized Posix ''Red'')" by code_simp
  have "''Red'' \<in> set (column colour_table 0)" by code_simp
  with red have h3: "\<exists>v\<in>set (column colour_table 0). \<not> float_ok (normalized Posix v)" by blast
  have vs: "first_occurrences (map (normalized Posix) (column colour_table 0))
              = [[dq] @ ''red'' @ [dq], [dq] @ ''blue'' @ [dq]]" by code_simp
  have name: "zero_fill (hd colour_table ! 0) = ''Colour''" by code_simp
  from nominal_domain_first_occurrences[OF h1 h2 h3, of "''in.csv''" "''out.arff''" "''r''"]
  show ?thesis using h1 h2 red unfolding vs name by auto
qed

text \<open>
  C5. The empty-cell pass replaces every empty cell in a column of the header, in every
  row including the header row, by the string \<open>0\<close> (these are all the cells of a table
  whose rows have as many fields as the header); the normalization pass works on the
  cells it left, and so does the type inference: a column whose data cells are all empty
  is written as \<open>numeric\<close>.
\<close>

theorem empty_cells_become_zero:
  assumes "wide_enough t"
  shows "\<exists>t1 t2 att out.
     empty_cell_pass (length (hd t)) (length t) t = Inr t1
     \<and> analyse pf t = Inr (length (hd t), length t, t2, att)
     \<and> written (csv_to_arff pf (ReadOk t) OpenOk fileToRead fileToWrite relation) = Some out
     \<and> (\<forall>i<length t. \<forall>j<length (hd t).
           t1 ! i ! j = (if t ! i ! j = [] then ''0'' else t ! i ! j))
     \<and> (rectangular t \<longrightarrow> t1 = map (map zero_fill) t)
     \<and> (\<forall>i<length t. \<forall>j<length (hd t). 1 \<le> i \<longrightarrow> t2 ! i ! j = normalize_cell pf (t1 ! i ! j))
     \<and> (\<forall>j<length (hd t). (\<forall>v\<in>set (column t j). v = []) \<longrightarrow>
           out ! (4 + j) = ''@attribute '' @ [sq] @ zero_fill (hd t ! j) @ [sq] @ '' numeric'' @ [nl])"
proof -
  let ?n = "length (hd t)"
  let ?t1 = "map (on_columns ?n zero_fill) t"
  from assms have wide: "\<forall>r\<in>set t. ?n \<le> length r" by (simp add: wide_enough_def)
  have p1: "empty_cell_pass ?n (length t) t = Inr ?t1"
    by (rule empty_cell_pass_Inr[OF wide])
  have c1: "?t1 ! i ! j = (if t ! i ! j = [] then ''0'' else t ! i ! j)"
    if "i < length t" "j < ?n" for i j
  proof -
    from that(1) wide have "?n \<le> length (t ! i)" by simp
    with that show ?thesis by (simp add: nth_on_columns zero_fill_def)
  qed
  have c2: "final_table pf t ! i ! j = normalize_cell pf (?t1 ! i ! j)"
    if "i < length t" "j < ?n" "1 \<le> i" for i j
  proof -
    from that(1) wide have "?n \<le> length (t ! i)" by simp
    with nth_final_table[OF assms that(3,1,2), of pf] that show ?thesis
      by (simp add: nth_on_columns normalized_def)
  qed
  have c3: "arff_writes pf t relation ! (4 + j)
              = ''@attribute '' @ [sq] @ zero_fill (hd t ! j) @ [sq] @ '' numeric'' @ [nl]"
    if "j < ?n" "\<forall>v\<in>set (column t j). v = []" for j
  proof -
    from that(2) have "\<forall>v\<in>set (column t j). float_ok (normalized pf v)"
      by (auto simp: normalized_empty float_ok_zero)
    then have "att_type pf t j = ''numeric''"
      by (simp add: att_type_def Let_def)
    with nth_arff_writes_attribute[OF that(1), of pf relation] show ?thesis by simp
  qed
  have c4: "?t1 = map (map zero_fill) t" if "rectangular t"
  proof -
    from that have "\<forall>r\<in>set t. length r \<le> ?n"
      unfolding rectangular_def by (metis order_refl)
    then have "\<forall>r\<in>set t. on_columns ?n zero_fill r = map zero_fill r"
      by (simp add: on_columns_all)
    then show ?thesis by simp
  qed
  show ?thesis
    using p1 analyse_Inr[OF assms, of pf] written_ok[OF assms] c1 c2 c3 c4 by blast
qed

theorem empty_cells_become_zero_witness:
  "wide_enough empty_column_table
   \<and> (\<exists>t1 out.
         empty_cell_pass 2 3 empty_column_table = Inr t1
         \<and> written (csv_to_arff Posix (ReadOk empty_column_table) OpenOk ''in.csv'' ''out.arff'' ''r'')
             = Some out
         \<and> t1 ! 1 ! 1 = ''0''
         \<and> out ! (4 + 1) = ''@attribute '' @ [sq] @ ''b'' @ [sq] @ '' numeric'' @ [nl])"
proof -
  have h1: "wide_enough empty_column_table" by code_simp
  have l: "length (hd empty_column_table) = 2" "length empty_column_table = 3" by code_simp+
  have cell: "empty_column_table ! 1 ! 1 = []" by code_simp
  have col: "\<forall>v\<in>set (column empty_column_table 1). v = []" by code_simp
  have name: "zero_fill (hd empty_column_table ! 1) = ''b''" by code_simp
  from empty_cells_become_zero[OF h1, of Posix "''in.csv''" "''out.arff''" "''r''"]
  obtain t1 out where run:
    "empty_cell_pass 2 3 empty_column_table = Inr t1"
    "written (csv_to_arff Posix (ReadOk empty_column_table) OpenOk ''in.csv'' ''out.arff'' ''r'')
       = Some out"
    and cells: "\<forall>i<3. \<forall>j<2. t1 ! i ! j
       = (if empty_column_table ! i ! j = [] then ''0'' else empty_column_table ! i ! j)"
    and types: "\<forall>j<2. (\<forall>v\<in>set (column empty_column_table j). v = []) \<longrightarrow>
       out ! (4 + j) = ''@attribute '' @ [sq] @ zero_fill (hd empty_column_table ! j) @ [sq]
                         @ '' numeric'' @ [nl]"
    unfolding l by blast
  from cells[rule_format, of 1 1] cell have "t1 ! 1 ! 1 = ''0''" by simp
  moreover from types[rule_format, of 1] col name
  have "out ! (4 + 1) = ''@attribute '' @ [sq] @ ''b'' @ [sq] @ '' numeric'' @ [nl]" by simp
  ultimately show ?thesis using h1 run by blast
qed

text \<open>
  C6. For every table whose rows all have as many fields as the header, the strings
  written are: the comment block, whose third string declares the number of header fields
  as the attribute count and \<open>totalRows - 1\<close> as the instance count; one attribute line for
  each header field, in the order of the header; the \<open>@data\<close> marker; and for each data row,
  in the order of the table, its normalized fields joined by commas and a newline.
\<close>

theorem output_structure:
  assumes "rectangular t"
  shows "\<exists>atts.
     written (csv_to_arff pf (ReadOk t) OpenOk fileToRead fileToWrite relation)
       = Some (comment_block (length (hd t)) (length t) relation
               @ atts
               @ [[nl] @ ''@data'' @ [nl]]
               @ map (\<lambda>r. join '','' (map (normalized pf) r) @ [nl]) (tl t))
     \<and> length atts = length (hd t)
     \<and> (\<forall>j<length (hd t). \<exists>ty.
           atts ! j = ''@attribute '' @ [sq] @ zero_fill (hd t ! j) @ [sq] @ '' '' @ ty @ [nl])
     \<and> comment_block (length (hd t)) (length t) relation ! 2
         = ''% Attributes: '' @ str_nat (length (hd t)) @ ''     Instances: ''
           @ str_nat (length t - 1) @ [nl] @ ''%'' @ [nl] @ ''%'' @ [nl] @ [nl]"
proof -
  let ?n = "length (hd t)"
  let ?atts = "map (\<lambda>j. ''@attribute '' @ [sq] @ zero_fill (hd t ! j) @ [sq] @ '' ''
                         @ att_type pf t j @ [nl]) [0..<?n]"
  from assms have rows: "\<forall>r\<in>set (tl t). length r = ?n"
    by (cases t) (auto simp: rectangular_def)
  have "map (\<lambda>r. join '','' (on_columns ?n (normalized pf) r) @ [nl]) (tl t)
          = map (\<lambda>r. join '','' (map (normalized pf) r) @ [nl]) (tl t)"
    using rows by (simp add: on_columns_all)
  then have "written (csv_to_arff pf (ReadOk t) OpenOk fileToRead fileToWrite relation)
      = Some (comment_block ?n (length t) relation @ ?atts @ [[nl] @ ''@data'' @ [nl]]
              @ map (\<lambda>r. join '','' (map (normalized pf) r) @ [nl]) (tl t))"
    using written_ok[OF rectangular_wide_enough[OF assms], of pf fileToRead fileToWrite relation]
    by (simp add: arff_writes_def)
  moreover have "length ?atts = ?n" by simp
  moreover have "\<forall>j<?n. \<exists>ty.
      ?atts ! j = ''@attribute '' @ [sq] @ zero_fill (hd t ! j) @ [sq] @ '' '' @ ty @ [nl]"
    by simp
  moreover have "comment_block ?n (length t) relation ! 2
      = ''% Attributes: '' @ str_nat ?n @ ''     Instances: ''
        @ str_nat (length t - 1) @ [nl] @ ''%'' @ [nl] @ ''%'' @ [nl] @ [nl]"
  proof -
    have "replicate 5 (CHR '' '') = ''     ''" by code_simp
    then show ?thesis by (simp add: comment_block_def)
  qed
  ultimately show ?thesis by blast
qed

theorem output_structure_witness:
  "rectangular example_table
   \<and> (\<exists>atts.
        written (csv_to_arff Posix (ReadOk example_table) OpenOk ''in.csv'' ''out.arff'' ''people'')
          = Some (comment_block 3 3 ''people''
                  @ atts
                  @ [[nl] @ ''@data'' @ [nl]]
                  @ [[dq] @ ''alice'' @ [dq] @ '',30,9.5'' @ [nl],
                     [dq] @ ''bob'' @ [dq] @ '',0,8'' @ [nl]])
        \<and> length atts = 3
        \<and> comment_block 3 3 ''people'' ! 2
            = ''% Attributes: 3     Instances: 2'' @ [nl] @ ''%'' @ [nl] @ ''%'' @ [nl] @ [nl])"
proof -
  have h1: "rectangular example_table" by code_simp
  have l: "length (hd example_table) = 3" "length example_table = 3" by code_simp+
  have rows: "map (\<lambda>r. join '','' (map (normalized Posix) r) @ [nl]) (tl example_table)
      = [[dq] @ ''alice'' @ [dq] @ '',30,9.5'' @ [nl], [dq] @ ''bob'' @ [dq] @ '',0,8'' @ [nl]]"
    by code_simp
  have "str_nat 3 = ''3''" "str_nat (3 - 1) = ''2''"
    by (subst str_nat.simps, simp add: digit_char_def)+
  then have counts: "''% Attributes: '' @ str_nat 3 @ ''     Instances: '' @ str_nat (3 - 1)
      = ''% Attributes: 3     Instances: 2''"
    by simp
  note inst = output_structure[OF h1, of Posix "''in.csv''" "''out.arff''" "''people''",
      unfolded l rows]
  from inst obtain atts where
    a: "written (csv_to_arff Posix (ReadOk example_table) OpenOk ''in.csv'' ''out.arff'' ''people'')
       = Some (comment_block 3 3 ''people'' @ atts @ [[nl] @ ''@data'' @ [nl]]
               @ [[dq] @ ''alice'' @ [dq] @ '',30,9.5'' @ [nl],
                  [dq] @ ''bob'' @ [dq] @ '',0,8'' @ [nl]])"
    and b: "length atts = 3"
    and c: "comment_block 3 3 ''people'' ! 2
       = ''% Attributes: '' @ str_nat 3 @ ''     Instances: '' @ str_nat (3 - 1)
         @ [nl] @ ''%'' @ [nl] @ ''%'' @ [nl] @ [nl]"
    by (elim exE conjE) (rule that, assumption+)
  from c counts have c': "comment_block 3 3 ''people'' ! 2
       = ''% Attributes: 3     Instances: 2'' @ [nl] @ ''%'' @ [nl] @ ''%'' @ [nl] @ [nl]"
    by simp
  from h1 a b c' show ?thesis by (intro conjI exI[of _ atts])
qed

text \<open>
  C7. When the source cannot be opened or read, the call prints the failure, naming the
  path, and returns; the destination is not opened. For a file that does not exist the
  message is the one of line 61.
\<close>

theorem missing_source_reported:
  "csv_to_arff pf FileNotFoundError wr fileToRead fileToWrite relation
     = Returns (''Error: File '' @ [sq] @ fileToRead @ [sq] @ '' not found.'') None
   \<and> csv_to_arff pf (ReadException e) wr fileToRead fileToWrite relation
     = Returns (''Error reading file '' @ [sq] @ fileToRead @ [sq] @ '': '' @ e) None"
  by (simp add: csv_to_arff_def)

text \<open>
  C8. On one platform, two calls that read the same table and are given the same relation
  name leave the same content in the destination, whatever the names of the two files:
  the content is a function of the table and the relation name.
\<close>

theorem same_table_same_destination:
  "destination pf (csv_to_arff pf (ReadOk t) wr fileToRead fileToWrite relation)
     = destination pf (csv_to_arff pf (ReadOk t) wr fileToRead' fileToWrite' relation)"
proof (cases "wide_enough t")
  case True
  then show ?thesis
    by (cases wr) (simp_all add: csv_to_arff_ok csv_to_arff_open_fails destination_def)
next
  case False
  then show ?thesis by (simp add: csv_to_arff_raises)
qed

text \<open>
  C9. A source that is readable but has no rows at all: the access \<open>allData[0]\<close> in line 67
  is outside both \<open>try\<close> blocks, and the call raises \<open>IndexError\<close> to its caller instead of
  returning.
\<close>

theorem no_rows_raises:
  "csv_to_arff pf (ReadOk []) wr fileToRead fileToWrite relation = Raises IndexError"
  by (simp add: csv_to_arff_def analyse_def)

text \<open>
  C10. A header cell that is not empty is written into its attribute line as it was read,
  between single quotes: the normalization pass starts at row 1, and line 131 writes
  \<open>attributes[i]\<close> as it is.
\<close>

theorem header_names_verbatim:
  assumes "wide_enough t" and "j < length (hd t)" and "hd t ! j \<noteq> []"
  shows "\<exists>out.
     written (csv_to_arff pf (ReadOk t) OpenOk fileToRead fileToWrite relation) = Some out
     \<and> out ! (4 + j) = ''@attribute '' @ [sq] @ hd t ! j @ [sq] @ '' '' @ att_type pf t j @ [nl]"
  using written_ok[OF assms(1)] nth_arff_writes_attribute[OF assms(2), of pf relation] assms(3)
  by (simp add: zero_fill_def)

theorem header_names_verbatim_witness:
  "wide_enough quoted_header_table \<and> (0::nat) < length (hd quoted_header_table)
   \<and> hd quoted_header_table ! 0 \<noteq> []
   \<and> (\<exists>out.
        written (csv_to_arff Posix (ReadOk quoted_header_table) OpenOk ''in.csv'' ''out.arff'' ''r'')
          = Some out
        \<and> out ! (4 + 0) = ''@attribute '' @ [sq] @ ''It's'' @ [sq] @ '' ''
                            @ ''{'' @ [dq] @ ''x'' @ [dq] @ ''}'' @ [nl])"
proof -
  have h1: "wide_enough quoted_header_table" by code_simp
  have h2: "(0::nat) < length (hd quoted_header_table)" by code_simp
  have h3: "hd quoted_header_table ! 0 \<noteq> []" by code_simp
  have name: "hd quoted_header_table ! 0 = ''It's''" by code_simp
  have ty: "att_type Posix quoted_header_table 0 = ''{'' @ [dq] @ ''x'' @ [dq] @ ''}''" by code_simp
  from header_names_verbatim[OF h1 h2 h3, of Posix "''in.csv''" "''out.arff''" "''r''"]
  show ?thesis using h1 h2 h3 unfolding name ty by simp
qed

end
